theory Spec2Isabelle
  imports Main "HOL-Library.Multiset" "HOL-Library.AList"
begin

section \<open>Data model\<close>

text \<open>
  The program is \<^verbatim>\<open>partial_digest.py\<close>. Python integers are unbounded, so they are
  \<^typ>\<open>int\<close>. A \<^verbatim>\<open>dict[int, int]\<close> is an association list in insertion order:
  \<^const>\<open>map_of\<close> is the lookup, \<^const>\<open>AList.update\<close> is the assignment
  \<^verbatim>\<open>d[k] = v\<close> (it overwrites in place, or adds the new key at the end), and a dict
  comprehension with a condition is \<^const>\<open>filter\<close>. The exceptions the code can raise
  are values of \<open>error\<close>; a function that can raise returns \<open>error + 'a\<close>.
\<close>

datatype error = ValueError | KeyError

type_synonym counts = "(int \<times> int) list"

text \<open>An entry of the search stack: the remaining counts and the points placed so far.\<close>

type_synonym entry = "counts \<times> int list"

text \<open>
  The \<^verbatim>\<open>deque\<close> used as a stack: \<^verbatim>\<open>append\<close> is \<open>#\<close>, \<^verbatim>\<open>pop\<close> takes the head.
\<close>

type_synonym stack = "entry list"

text \<open>
  A store of dict objects, addressed by their index. It is used where the code
  copies a dict and mutates the copy.
\<close>

type_synonym heap = "counts list"

section \<open>The functions of the program\<close>

subsection \<open>The builtin \<^verbatim>\<open>max\<close>\<close>

text \<open>\<^verbatim>\<open>max\<close> of a sequence raises \<^verbatim>\<open>ValueError\<close> when the sequence is empty.\<close>

definition py_max :: "int list \<Rightarrow> error + int" where
  "py_max xs = (case xs of [] \<Rightarrow> Inl ValueError | x # rest \<Rightarrow> Inr (fold max rest x))"

subsection \<open>\<^verbatim>\<open>calculate_distances\<close>\<close>

definition calculate_distances :: "int \<Rightarrow> int list \<Rightarrow> int list" where
  "calculate_distances pt points = map (\<lambda>p. \<bar>p - pt\<bar>) points"

subsection \<open>\<^verbatim>\<open>can_remove_distances\<close>\<close>

text \<open>\<^verbatim>\<open>dist_counts.copy()\<close>: a new object holding the same items.\<close>

definition dict_copy :: "nat \<Rightarrow> heap \<Rightarrow> nat \<times> heap" where
  "dict_copy a h = (length h, h @ [h ! a])"

text \<open>The \<^verbatim>\<open>for\<close> loop over \<^verbatim>\<open>dist_to_remove\<close>; \<open>t\<close> is the address of \<^verbatim>\<open>temp_counts\<close>.\<close>

fun can_remove_loop :: "int list \<Rightarrow> nat \<Rightarrow> heap \<Rightarrow> bool \<times> heap" where
  "can_remove_loop [] t h = (True, h)"
| "can_remove_loop (dist # rest) t h =
     (case map_of (h ! t) dist of
        None \<Rightarrow> (False, h)
      | Some c \<Rightarrow>
          if c \<le> 0 then (False, h)
          else can_remove_loop rest t (h[t := AList.update dist (c - 1) (h ! t)]))"

text \<open>
  The function on the store: \<open>a\<close> is the address of the argument \<^verbatim>\<open>dist_counts\<close>;
  the result is the returned boolean and the store after the call.
\<close>

definition can_remove_distances_st :: "int list \<Rightarrow> nat \<Rightarrow> heap \<Rightarrow> bool \<times> heap" where
  "can_remove_distances_st dist_to_remove a h =
     (case dict_copy a h of (t, h') \<Rightarrow> can_remove_loop dist_to_remove t h')"

text \<open>The returned boolean alone, for a caller that holds the dict as a value.\<close>

definition can_remove_distances :: "int list \<Rightarrow> counts \<Rightarrow> bool" where
  "can_remove_distances dist_to_remove dist_counts =
     fst (can_remove_distances_st dist_to_remove 0 [dist_counts])"

subsection \<open>\<^verbatim>\<open>create_distance_counts\<close>\<close>

fun count_loop :: "int list \<Rightarrow> counts \<Rightarrow> counts" where
  "count_loop [] counts = counts"
| "count_loop (dist # rest) counts =
     count_loop rest
       (case map_of counts dist of
          Some c \<Rightarrow> AList.update dist (c + 1) counts
        | None \<Rightarrow> AList.update dist 1 counts)"

definition create_distance_counts :: "int list \<Rightarrow> counts" where
  "create_distance_counts distances = count_loop distances []"

subsection \<open>\<^verbatim>\<open>find_solution\<close>\<close>

text \<open>\<^verbatim>\<open>max(curr_counts.keys())\<close>.\<close>

definition max_key :: "counts \<Rightarrow> error + int" where
  "max_key curr_counts = py_max (map fst curr_counts)"

text \<open>
  The loop \<^verbatim>\<open>for dist in distances1: new_counts1[dist] -= 1\<close>; reading a missing key
  raises \<^verbatim>\<open>KeyError\<close>.
\<close>

fun decrement_all :: "int list \<Rightarrow> counts \<Rightarrow> error + counts" where
  "decrement_all [] new_counts = Inr new_counts"
| "decrement_all (dist # rest) new_counts =
     (case map_of new_counts dist of
        None \<Rightarrow> Inl KeyError
      | Some c \<Rightarrow> decrement_all rest (AList.update dist (c - 1) new_counts))"

text \<open>
  The block the code runs for each of the two candidates (lines 99-112 and 115-128 are
  the same text): the result is the entry to push, if any.
\<close>

definition try_candidate :: "int \<Rightarrow> counts \<Rightarrow> int list \<Rightarrow> error + entry option" where
  "try_candidate candidate curr_counts curr_points =
     (let distances1 = calculate_distances candidate curr_points in
      if can_remove_distances distances1 curr_counts then
        (case decrement_all distances1 curr_counts of
           Inl err \<Rightarrow> Inl err
         | Inr decremented \<Rightarrow>
             let new_counts = filter (\<lambda>(k, v). v > 0) decremented in
             if candidate \<notin> set curr_points
             then Inr (Some (new_counts, curr_points @ [candidate]))
             else Inr None)
      else Inr None)"

definition push :: "entry option \<Rightarrow> stack \<Rightarrow> stack" where
  "push r stack = (case r of None \<Rightarrow> stack | Some child \<Rightarrow> child # stack)"

text \<open>One iteration of \<^verbatim>\<open>while stack\<close>, after the pop.\<close>

datatype step = Raise error | Return "int list" | Next stack

definition loop_body :: "int \<Rightarrow> entry \<Rightarrow> stack \<Rightarrow> step" where
  "loop_body width e stack =
     (case e of (curr_counts, curr_points) \<Rightarrow>
        if sum_list (map snd curr_counts) = 0 then Return (sort curr_points)
        else
          (case max_key curr_counts of
             Inl err \<Rightarrow> Raise err
           | Inr max_dist \<Rightarrow>
               (let candidate1 = max_dist; candidate2 = width - max_dist in
                case try_candidate candidate1 curr_counts curr_points of
                  Inl err \<Rightarrow> Raise err
                | Inr r1 \<Rightarrow>
                    (case try_candidate candidate2 curr_counts curr_points of
                       Inl err \<Rightarrow> Raise err
                     | Inr r2 \<Rightarrow> Next (push r2 (push r1 stack))))))"

function find_loop :: "int \<Rightarrow> stack \<Rightarrow> error + int list option" where
  "find_loop width [] = Inr None"
| "find_loop width (e # stack) =
     (case loop_body width e stack of
        Raise err \<Rightarrow> Inl err
      | Return sol \<Rightarrow> Inr (Some sol)
      | Next stack' \<Rightarrow> find_loop width stack')"
  by pat_completeness auto

definition find_solution :: "int \<Rightarrow> int list \<Rightarrow> int list \<Rightarrow> error + int list option" where
  "find_solution width distances points =
     (let initial_counts = create_distance_counts distances in
      find_loop width [(initial_counts, points)])"

subsection \<open>\<^verbatim>\<open>partial_digest\<close>\<close>

definition partial_digest :: "int list \<Rightarrow> error + int list option" where
  "partial_digest fragment_lengths =
     (if fragment_lengths = [] then Inr None
      else
        (case py_max fragment_lengths of
           Inl err \<Rightarrow> Inl err
         | Inr width \<Rightarrow>
             (let remaining = filter (\<lambda>d. d \<noteq> width) fragment_lengths;
                  starter = [0, width]
              in find_solution width remaining starter)))"

subsection \<open>\<^verbatim>\<open>all_pairwise_distances\<close>\<close>

definition all_pairwise_distances :: "int list \<Rightarrow> int list" where
  "all_pairwise_distances points =
     (let sorted_points = sort points in
      sort (concat (map (\<lambda>i. map (\<lambda>j. \<bar>sorted_points ! j - sorted_points ! i\<bar>)
                                  [i + 1 ..< length sorted_points])
                        [0 ..< length sorted_points])))"

subsection \<open>\<^verbatim>\<open>extract_array_from_input\<close>\<close>

text \<open>
  A Python \<^verbatim>\<open>str\<close> is a sequence of Unicode code points: a list of natural numbers.
  \<open>code_points\<close> gives the code points of a literal of ASCII characters.
\<close>

type_synonym pystr = "nat list"

definition code_points :: "string \<Rightarrow> pystr" where
  "code_points s = map of_char s"

text \<open>
  \<^verbatim>\<open>str.strip()\<close> removes the white space at both ends. White space is what
  \<^verbatim>\<open>str.isspace\<close> accepts: U+0009 to U+000D, U+001C to U+0020, U+0085, U+00A0, U+1680,
  U+2000 to U+200A, U+2028, U+2029, U+202F, U+205F and U+3000.
\<close>

definition is_space :: "nat \<Rightarrow> bool" where
  "is_space c =
     (c \<in> {9, 10, 11, 12, 13, 28, 29, 30, 31, 32, 133, 160, 5760, 8232, 8233, 8239, 8287, 12288}
      \<or> (8192 \<le> c \<and> c \<le> 8202))"

definition strip :: "pystr \<Rightarrow> pystr" where
  "strip s = rev (dropWhile is_space (rev (dropWhile is_space s)))"

text \<open>
  \<^verbatim>\<open>content.split(',')\<close>: the pieces between the commas (code point 44), empty pieces
  included.
\<close>

fun split_comma :: "pystr \<Rightarrow> pystr list" where
  "split_comma [] = [[]]"
| "split_comma (c # cs) =
     (if c = 44 then [] # split_comma cs
      else (case split_comma cs of
              [] \<Rightarrow> [[c]]
            | piece # pieces \<Rightarrow> (c # piece) # pieces))"

text \<open>
  The comprehension \<^verbatim>\<open>[int(x.strip()) for x in ...]\<close>. The builtin \<^verbatim>\<open>int\<close> is not code of
  the program: it is the parameter \<open>to_int\<close>, which is \<open>None\<close> where \<^verbatim>\<open>int\<close> raises
  \<^verbatim>\<open>ValueError\<close>. The first token that raises ends the comprehension.
\<close>

fun int_list :: "(pystr \<Rightarrow> int option) \<Rightarrow> pystr list \<Rightarrow> int list option" where
  "int_list to_int [] = Some []"
| "int_list to_int (x # xs) =
     (case to_int (strip x) of
        None \<Rightarrow> None
      | Some n \<Rightarrow> (case int_list to_int xs of None \<Rightarrow> None | Some ns \<Rightarrow> Some (n # ns)))"

text \<open>
  The slice \<^verbatim>\<open>[1:-1]\<close> drops the first and the last code point and is empty for a string
  of fewer than two; it never raises, so the \<^verbatim>\<open>IndexError\<close> of the \<^verbatim>\<open>except\<close> clause
  cannot occur. The clause turns the \<^verbatim>\<open>ValueError\<close> of \<^verbatim>\<open>int\<close> into the result \<^verbatim>\<open>None\<close>
  (the message printed to the error stream is not part of the model).
\<close>

definition extract_array_from_input :: "(pystr \<Rightarrow> int option) \<Rightarrow> pystr \<Rightarrow> int list option" where
  "extract_array_from_input to_int input_str =
     (let content = butlast (tl (strip input_str)) in
      if content = [] then Some []
      else int_list to_int (split_comma content))"

section \<open>Measures for the termination of the search\<close>

text \<open>The sum of the positive counts of a dict.\<close>

definition total :: "counts \<Rightarrow> nat" where
  "total cs = sum_list (map (\<lambda>(k, v). nat v) cs)"

definition rank :: "entry \<Rightarrow> nat" where
  "rank e = 2 * total (fst e) + (if snd e = [] then 1 else 0)"

definition weight :: "stack \<Rightarrow> nat" where
  "weight st = sum_list (map (\<lambda>e. 3 ^ rank e) st)"

section \<open>The stacks the search goes through\<close>

text \<open>
  \<open>reached width s0 s\<close>: the loop of \<^verbatim>\<open>find_solution\<close>, started on the stack \<open>s0\<close>,
  has the stack \<open>s\<close> at the head of some iteration.
\<close>

inductive reached :: "int \<Rightarrow> stack \<Rightarrow> stack \<Rightarrow> bool" for width :: int and s0 :: stack where
  start: "reached width s0 s0"
| iterate: "reached width s0 (e # stack) \<Longrightarrow> loop_body width e stack = Next stack' \<Longrightarrow>
     reached width s0 stack'"

text \<open>The stacks of a call \<^verbatim>\<open>find_solution(width, distances, points)\<close>.\<close>

definition search_stacks :: "int \<Rightarrow> int list \<Rightarrow> int list \<Rightarrow> stack \<Rightarrow> bool" where
  "search_stacks width distances points =
     reached width [(create_distance_counts distances, points)]"

section \<open>Multisets of distances\<close>

text \<open>The multiset that a dict of counts stands for: each key, as often as its count.\<close>

definition mset_of :: "counts \<Rightarrow> int multiset" where
  "mset_of cs = sum_list (map (\<lambda>(k, v). replicate_mset (nat v) k) cs)"

text \<open>A dict has each key once; the search keeps every count positive.\<close>

definition positive_counts :: "counts \<Rightarrow> bool" where
  "positive_counts cs = (distinct (map fst cs) \<and> list_all (\<lambda>(k, v). 0 < v) cs)"

text \<open>The distances between the points of a list, one for each pair of positions.\<close>

fun distances_of :: "int list \<Rightarrow> int multiset" where
  "distances_of [] = {#}"
| "distances_of (p # ps) = mset (map (\<lambda>q. \<bar>q - p\<bar>) ps) + distances_of ps"

text \<open>The distances between the points of one list and the points of another.\<close>

fun between :: "int list \<Rightarrow> int list \<Rightarrow> int multiset" where
  "between ps [] = {#}"
| "between ps (r # rs) = mset (calculate_distances r ps) + between ps rs"

text \<open>
  An entry of the stack agrees with a point set of width \<open>W\<close> when its points, together
  with a list \<open>rs\<close> of points still to place, are distinct points of \<open>[0, W]\<close>, and its
  counts are the distances that the points to place have to all points.
\<close>

definition agrees :: "int \<Rightarrow> int list \<Rightarrow> entry \<Rightarrow> bool" where
  "agrees W rs e =
     (case e of (cs, ps) \<Rightarrow>
        distinct (ps @ rs) \<and> list_all (\<lambda>x. 0 \<le> x \<and> x \<le> W) (ps @ rs) \<and>
        0 \<in> set ps \<and> W \<in> set ps \<and> positive_counts cs \<and>
        mset_of cs = between ps rs + distances_of rs)"

section \<open>The loops over a batch of distances\<close>

text \<open>The boolean that \<^verbatim>\<open>can_remove_distances\<close> returns depends on the copied dict only.\<close>

lemma can_remove_loop_local:
  "t < length h \<Longrightarrow> fst (can_remove_loop batch t h) = fst (can_remove_loop batch 0 [h ! t])"
proof (induction batch arbitrary: h)
  case Nil
  show ?case by simp
next
  case (Cons d rest)
  show ?case
  proof (cases "map_of (h ! t) d")
    case None
    then show ?thesis by simp
  next
    case (Some c)
    show ?thesis
    proof (cases "c \<le> 0")
      case True
      with Some show ?thesis by simp
    next
      case False
      have "fst (can_remove_loop rest t (h[t := AList.update d (c - 1) (h ! t)]))
            = fst (can_remove_loop rest 0 [AList.update d (c - 1) (h ! t)])"
        using Cons.IH [of "h[t := AList.update d (c - 1) (h ! t)]"] Cons.prems by simp
      moreover have "fst (can_remove_loop rest 0 ([h ! t][0 := AList.update d (c - 1) (h ! t)]))
            = fst (can_remove_loop rest 0 [AList.update d (c - 1) (h ! t)])"
        by simp
      ultimately show ?thesis using Some False by simp
    qed
  qed
qed

lemma can_remove_distances_Nil: "can_remove_distances [] cs = True"
  by (simp add: can_remove_distances_def can_remove_distances_st_def dict_copy_def)

lemma can_remove_distances_Cons:
  "can_remove_distances (d # rest) cs =
     (case map_of cs d of None \<Rightarrow> False
      | Some c \<Rightarrow> 0 < c \<and> can_remove_distances rest (AList.update d (c - 1) cs))"
proof -
  have eq: "can_remove_distances b xs = fst (can_remove_loop b 0 [xs])" for b xs
    using can_remove_loop_local [of 1 "[xs, xs]" b]
    by (simp add: can_remove_distances_def can_remove_distances_st_def dict_copy_def)
  show ?thesis
    unfolding eq by (simp split: option.splits)
qed

lemma total_update:
  "map_of cs d = Some c \<Longrightarrow> 0 < c \<Longrightarrow> total (AList.update d (c - 1) cs) + 1 = total cs"
proof (induction cs)
  case Nil
  then show ?case by simp
next
  case (Cons a cs)
  obtain k v where a: "a = (k, v)" by (cases a)
  show ?case
  proof (cases "k = d")
    case True
    with Cons.prems a show ?thesis by (simp add: total_def nat_diff_distrib)
  next
    case False
    with Cons a show ?thesis by (simp add: total_def)
  qed
qed

lemma total_filter: "total (filter (\<lambda>(k, v). v > 0) cs) = total cs"
  by (induction cs) (auto simp: total_def)

lemma decrement_all_total:
  "can_remove_distances batch cs \<Longrightarrow>
     \<exists>dec. decrement_all batch cs = Inr dec \<and> total dec + length batch = total cs"
proof (induction batch arbitrary: cs)
  case Nil
  then show ?case by simp
next
  case (Cons d rest)
  from Cons.prems obtain c where c: "map_of cs d = Some c" "0 < c"
      and r: "can_remove_distances rest (AList.update d (c - 1) cs)"
    by (auto simp: can_remove_distances_Cons split: option.splits)
  from Cons.IH [OF r] obtain dec where
    "decrement_all rest (AList.update d (c - 1) cs) = Inr dec"
    "total dec + length rest = total (AList.update d (c - 1) cs)" by blast
  with c total_update [OF c] show ?case by simp
qed

lemma try_candidate_Some:
  assumes "try_candidate c cs ps = Inr (Some (cs', ps'))"
  shows "ps' = ps @ [c] \<and> c \<notin> set ps \<and> total cs' + length ps = total cs"
proof -
  let ?b = "calculate_distances c ps"
  from assms have cr: "can_remove_distances ?b cs"
    by (auto simp: try_candidate_def Let_def split: if_splits)
  from decrement_all_total [OF cr] obtain dec where
    dec: "decrement_all ?b cs = Inr dec" "total dec + length ?b = total cs" by blast
  from assms cr dec have "cs' = filter (\<lambda>(k, v). v > 0) dec" "ps' = ps @ [c]" "c \<notin> set ps"
    by (auto simp: try_candidate_def Let_def split: if_splits)
  with dec show ?thesis by (simp add: total_filter calculate_distances_def)
qed

lemma rank_child:
  assumes "try_candidate c cs ps = Inr (Some child)"
  shows "rank child < rank (cs, ps)"
proof -
  obtain cs' ps' where ch: "child = (cs', ps')" by (cases child)
  from try_candidate_Some [OF assms [unfolded ch]]
  have "ps' \<noteq> []" "total cs' + length ps = total cs" by auto
  then show ?thesis unfolding ch rank_def by (cases ps) auto
qed

lemma weight_push:
  assumes "try_candidate c cs ps = Inr r"
  shows "3 * weight (push r st) \<le> 3 * weight st + 3 ^ rank (cs, ps)"
proof (cases r)
  case None
  then show ?thesis by (simp add: push_def)
next
  case (Some child)
  from rank_child [OF assms [unfolded Some]] have "rank child + 1 \<le> rank (cs, ps)" by simp
  then have "(3::nat) ^ (rank child + 1) \<le> 3 ^ rank (cs, ps)"
    by (rule power_increasing) simp
  then show ?thesis using Some by (simp add: push_def weight_def)
qed

lemma weight_loop_body:
  assumes "loop_body width e st = Next st'"
  shows "weight st' < weight (e # st)"
proof -
  obtain cs ps where e: "e = (cs, ps)" by (cases e)
  from assms obtain m r1 r2 where
    t1: "try_candidate m cs ps = Inr r1" and
    t2: "try_candidate (width - m) cs ps = Inr r2" and
    st': "st' = push r2 (push r1 st)"
    by (auto simp: loop_body_def e Let_def split: if_splits sum.splits)
  define p :: nat where "p = 3 ^ rank (cs, ps)"
  have "3 * weight st' \<le> 3 * weight (push r1 st) + p"
    unfolding st' p_def by (rule weight_push [OF t2])
  moreover have "3 * weight (push r1 st) \<le> 3 * weight st + p"
    unfolding p_def by (rule weight_push [OF t1])
  moreover have "0 < p" by (simp add: p_def)
  ultimately have "weight st' < weight st + p" by arith
  then show ?thesis by (simp add: weight_def e p_def)
qed

text \<open>
  Each iteration pops one entry and pushes at most two children of smaller rank, so the
  weight of the stack decreases and the loop of \<^verbatim>\<open>find_solution\<close> ends on every input.
\<close>

termination find_loop
  by (relation "measure (\<lambda>(w, st). weight st)") (auto simp: weight_loop_body)


section \<open>Degenerate inputs\<close>

text \<open>
  C9. \<^verbatim>\<open>partial_digest([])\<close> returns \<^verbatim>\<open>None\<close>, and for every positive integer \<open>d\<close>,
  \<^verbatim>\<open>partial_digest([d])\<close> returns the two points \<^verbatim>\<open>[0, d]\<close>.
\<close>

theorem partial_digest_degenerate:
  "partial_digest [] = Inr None \<and> (0 < d \<longrightarrow> partial_digest [d] = Inr (Some [0, d]))"
  by (simp add: partial_digest_def py_max_def find_solution_def create_distance_counts_def
      loop_body_def)

theorem partial_digest_degenerate_witness:
  "partial_digest [] = Inr None \<and> (0::int) < 5 \<and> partial_digest [5] = Inr (Some [0, 5])"
  using partial_digest_degenerate [of 5] by simp

section \<open>\<^verbatim>\<open>can_remove_distances\<close> is a pure multiset test\<close>

lemma can_remove_loop_frame:
  "length (snd (can_remove_loop batch t h)) = length h \<and>
   (\<forall>i. i \<noteq> t \<longrightarrow> snd (can_remove_loop batch t h) ! i = h ! i)"
  by (induction batch arbitrary: h) (auto split: option.splits)

lemma can_remove_distances_st_fst:
  "a < length h \<Longrightarrow> fst (can_remove_distances_st batch a h) = can_remove_distances batch (h ! a)"
  using can_remove_loop_local [of "length h" "h @ [h ! a]" batch]
        can_remove_loop_local [of 1 "[h ! a, h ! a]" batch]
  by (simp add: can_remove_distances_def can_remove_distances_st_def dict_copy_def)

lemma can_remove_distances_iff:
  "can_remove_distances batch cs \<longleftrightarrow>
     (\<forall>v\<in>set batch. \<exists>c. map_of cs v = Some c \<and> int (count_list batch v) \<le> c)"
proof (induction batch arbitrary: cs)
  case Nil
  show ?case by (simp add: can_remove_distances_Nil)
next
  case (Cons d rest)
  show ?case
  proof (cases "map_of cs d")
    case None
    then show ?thesis by (auto simp: can_remove_distances_Cons)
  next
    case (Some c)
    have "can_remove_distances (d # rest) cs \<longleftrightarrow>
            0 < c \<and> (\<forall>v\<in>set rest. \<exists>c'. ((map_of cs)(d \<mapsto> c - 1)) v = Some c'
                        \<and> int (count_list rest v) \<le> c')"
      by (simp add: can_remove_distances_Cons Some Cons.IH update_conv')
    also have "\<dots> \<longleftrightarrow> (\<forall>v\<in>set (d # rest). \<exists>c'. map_of cs v = Some c'
                        \<and> int (count_list (d # rest) v) \<le> c')"
    proof (cases "d \<in> set rest")
      case True
      then show ?thesis using Some by auto
    next
      case False
      then have "count_list rest d = 0" by (simp add: count_list_0_iff)
      then show ?thesis using Some False by auto
    qed
    finally show ?thesis .
  qed
qed

text \<open>
  C7. \<^verbatim>\<open>can_remove_distances(batch, counts)\<close> returns \<^verbatim>\<open>True\<close> exactly when every
  value that occurs \<open>k\<close> times in \<open>batch\<close> is a key of \<open>counts\<close> with a count of at
  least \<open>k\<close>, and the call leaves every dict that existed before it, the argument
  included, as it was: only the fresh copy is written. The boolean is the one the search
  uses.
\<close>

theorem can_remove_distances_spec:
  assumes "a < length h"
  shows "(fst (can_remove_distances_st batch a h) \<longleftrightarrow>
            (\<forall>v\<in>set batch. \<exists>c. map_of (h ! a) v = Some c \<and> int (count_list batch v) \<le> c))
         \<and> take (length h) (snd (can_remove_distances_st batch a h)) = h
         \<and> can_remove_distances batch (h ! a) = fst (can_remove_distances_st batch a h)"
proof -
  let ?h' = "snd (can_remove_loop batch (length h) (h @ [h ! a]))"
  have len: "length ?h' = Suc (length h)"
    and same: "\<And>i. i < length h \<Longrightarrow> ?h' ! i = h ! i"
    using can_remove_loop_frame [of batch "length h" "h @ [h ! a]"]
    by (auto simp: nth_append)
  have "take (length h) ?h' = h"
    by (rule nth_equalityI) (simp_all add: len same)
  then show ?thesis
    using can_remove_distances_st_fst [OF assms, of batch]
    by (simp add: can_remove_distances_iff can_remove_distances_st_def dict_copy_def)
qed

theorem can_remove_distances_spec_witness:
  "(0::nat) < length [[(2, 2), (3, 1 :: int)]] \<and>
   fst (can_remove_distances_st [2, 3, 2] 0 [[(2, 2), (3, 1)]]) \<and>
   \<not> fst (can_remove_distances_st [3, 3] 0 [[(2, 2), (3, 1)]]) \<and>
   snd (can_remove_distances_st [2, 3, 2] 0 [[(2, 2), (3, 1)]]) = [[(2, 2), (3, 1)], [(2, 0), (3, 0)]]"
  using can_remove_distances_spec [of 0 "[[(2, 2), (3, 1)]]" "[2, 3, 2]"]
  by (simp add: can_remove_distances_st_def dict_copy_def)

section \<open>The loop never raises\<close>

lemma sum_nonzero_nonempty: "sum_list (map snd cs) \<noteq> (0::int) \<Longrightarrow> cs \<noteq> []"
  by auto

lemma max_key_nonempty: "cs \<noteq> [] \<Longrightarrow> \<exists>m. max_key cs = Inr m"
  by (cases cs) (simp_all add: max_key_def py_max_def)

lemma try_candidate_no_raise: "\<exists>r. try_candidate c cs ps = Inr r"
proof (cases "can_remove_distances (calculate_distances c ps) cs")
  case True
  from decrement_all_total [OF True] show ?thesis
    using True by (auto simp: try_candidate_def Let_def)
next
  case False
  then show ?thesis by (simp add: try_candidate_def)
qed

lemma loop_body_no_raise: "loop_body width e st \<noteq> Raise err"
proof -
  obtain cs ps where e: "e = (cs, ps)" by (cases e)
  show ?thesis
  proof (cases "sum_list (map snd cs) = 0")
    case True
    then show ?thesis by (simp add: loop_body_def e)
  next
    case False
    from max_key_nonempty [OF sum_nonzero_nonempty [OF False]]
    obtain m where m: "max_key cs = Inr m" by blast
    obtain r1 where r1: "try_candidate m cs ps = Inr r1"
      using try_candidate_no_raise by blast
    obtain r2 where r2: "try_candidate (width - m) cs ps = Inr r2"
      using try_candidate_no_raise by blast
    show ?thesis using False m r1 r2 by (simp add: loop_body_def e)
  qed
qed

lemma find_loop_no_raise: "\<exists>r. find_loop width st = Inr r"
proof (induction width st rule: find_loop.induct)
  case (1 width)
  show ?case by simp
next
  case (2 width e stack)
  show ?case
  proof (cases "loop_body width e stack")
    case (Raise err)
    then show ?thesis using loop_body_no_raise by blast
  next
    case (Return sol)
    then show ?thesis by simp
  next
    case (Next stack')
    with 2 show ?thesis by simp
  qed
qed

section \<open>Facts about the stacks the search goes through\<close>

lemma reached_trans:
  "reached w s1 s2 \<Longrightarrow> reached w s0 s1 \<Longrightarrow> reached w s0 s2"
  by (induction rule: reached.induct) (auto intro: reached.intros)

lemma reached_first:
  "loop_body w e st = Next st' \<Longrightarrow> reached w st' s \<Longrightarrow> reached w (e # st) s"
  using reached_trans [of w st' s "e # st"] reached.intros [of w "e # st"]
  by blast

lemma find_loop_Some:
  "find_loop w st = Inr (Some sol) \<Longrightarrow>
     \<exists>cs ps rest. reached w st ((cs, ps) # rest) \<and> sum_list (map snd cs) = 0 \<and> sol = sort ps"
proof (induction w st rule: find_loop.induct)
  case (1 width)
  then show ?case by simp
next
  case (2 width e stack)
  show ?case
  proof (cases "loop_body width e stack")
    case (Raise err)
    with 2 show ?thesis by simp
  next
    case (Return s)
    obtain cs ps where e: "e = (cs, ps)" by (cases e)
    from Return have "sum_list (map snd cs) = 0" "s = sort ps"
      by (auto simp: loop_body_def e Let_def split: if_splits sum.splits)
    moreover from Return "2.prems" have "sol = s" by simp
    ultimately show ?thesis using reached.start [of width "e # stack"] e by blast
  next
    case (Next stack')
    with 2 obtain cs ps rest where
      "reached width stack' ((cs, ps) # rest)" "sum_list (map snd cs) = 0" "sol = sort ps"
      by auto
    with reached_first [OF Next] show ?thesis by blast
  qed
qed

lemma loop_body_Next:
  assumes "loop_body w (cs, ps) st = Next st'"
  obtains m r1 r2 where "sum_list (map snd cs) \<noteq> 0" "max_key cs = Inr m"
    "try_candidate m cs ps = Inr r1" "try_candidate (w - m) cs ps = Inr r2"
    "st' = push r2 (push r1 st)"
  using assms by (auto simp: loop_body_def Let_def split: if_splits sum.splits)

lemma reached_invariant:
  assumes "reached w s0 st"
    and "\<And>e. e \<in> set s0 \<Longrightarrow> I e"
    and "\<And>c cs ps child. I (cs, ps) \<Longrightarrow> try_candidate c cs ps = Inr (Some child) \<Longrightarrow> I child"
    and "e \<in> set st"
  shows "I e"
  using assms(1,4)
proof (induction arbitrary: e rule: reached.induct)
  case start
  then show ?case by (simp add: assms(2))
next
  case (iterate e0 stack stack')
  obtain cs ps where e0: "e0 = (cs, ps)" by (cases e0)
  from iterate.hyps(2) [unfolded e0] obtain m r1 r2 where
    r: "try_candidate m cs ps = Inr r1" "try_candidate (w - m) cs ps = Inr r2"
    "stack' = push r2 (push r1 stack)" by (rule loop_body_Next)
  have I0: "I (cs, ps)" using iterate.IH [of e0] e0 by simp
  from iterate.prems r(3) consider "r2 = Some e" | "r1 = Some e" | "e \<in> set stack"
    by (auto simp: push_def split: option.splits)
  then show ?case
  proof cases
    case 1
    with r(2) I0 show ?thesis by (blast intro: assms(3))
  next
    case 2
    with r(1) I0 show ?thesis by (blast intro: assms(3))
  next
    case 3
    then show ?thesis using iterate.IH [of e] by simp
  qed
qed

section \<open>Every count on the stack is positive\<close>

lemma positive_counts_filter:
  "distinct (map fst cs) \<Longrightarrow> positive_counts (filter (\<lambda>(k, v). v > 0) cs)"
  by (auto simp: positive_counts_def list_all_iff distinct_map_filter)

lemma distinct_decrement_all:
  "decrement_all batch cs = Inr dec \<Longrightarrow> distinct (map fst cs) \<Longrightarrow> distinct (map fst dec)"
  by (induction batch arbitrary: cs) (auto simp: distinct_update split: option.splits)

lemma positive_counts_update:
  "positive_counts cs \<Longrightarrow> 0 < v \<Longrightarrow> positive_counts (AList.update k v cs)"
  by (induction cs) (auto simp: positive_counts_def distinct_update dom_update)

lemma positive_counts_count_loop:
  "positive_counts cs \<Longrightarrow> positive_counts (count_loop ds cs)"
proof (induction ds arbitrary: cs)
  case Nil
  then show ?case by simp
next
  case (Cons d ds)
  show ?case
  proof (cases "map_of cs d")
    case None
    with Cons show ?thesis by (simp add: positive_counts_update)
  next
    case (Some c)
    then have "(d, c) \<in> set cs" by (rule map_of_SomeD)
    with Cons.prems have "0 < c" by (auto simp: positive_counts_def list_all_iff)
    with Cons Some show ?thesis by (simp add: positive_counts_update)
  qed
qed

lemma positive_counts_create: "positive_counts (create_distance_counts ds)"
  unfolding create_distance_counts_def
  by (rule positive_counts_count_loop) (simp add: positive_counts_def)

lemma try_candidate_positive:
  assumes "try_candidate c cs ps = Inr (Some (cs', ps'))" "positive_counts cs"
  shows "positive_counts cs'"
proof -
  let ?b = "calculate_distances c ps"
  from assms(1) have cr: "can_remove_distances ?b cs"
    by (auto simp: try_candidate_def Let_def split: if_splits)
  from decrement_all_total [OF cr] obtain dec where
    dec: "decrement_all ?b cs = Inr dec" by blast
  from assms(1) cr dec have "cs' = filter (\<lambda>(k, v). v > 0) dec"
    by (auto simp: try_candidate_def Let_def split: if_splits)
  moreover have "distinct (map fst dec)"
    using distinct_decrement_all [OF dec] assms(2) by (simp add: positive_counts_def)
  ultimately show ?thesis by (simp add: positive_counts_filter)
qed

lemma search_stacks_positive:
  assumes "search_stacks width distances points st" "(cs, ps) \<in> set st"
  shows "positive_counts cs"
proof -
  have "positive_counts (fst (cs, ps))"
  proof (rule reached_invariant [where I = "\<lambda>e. positive_counts (fst e)"])
    show "reached width [(create_distance_counts distances, points)] st"
      using assms(1) by (simp add: search_stacks_def)
    show "(cs, ps) \<in> set st" by (rule assms(2))
  next
    fix e assume "e \<in> set [(create_distance_counts distances, points)]"
    then show "positive_counts (fst e)" by (simp add: positive_counts_create)
  next
    fix c cs ps child
    assume "positive_counts (fst (cs, ps))" "try_candidate c cs ps = Inr (Some child)"
    then show "positive_counts (fst child)"
      using try_candidate_positive [of c cs ps "fst child" "snd child"] by simp
  qed
  then show ?thesis by simp
qed

text \<open>
  C5. Every dict of counts on the search stack of \<^verbatim>\<open>find_solution\<close>, the initial one
  from \<^verbatim>\<open>create_distance_counts\<close> and every child, maps each key to a strictly positive
  count (and holds each key once): a key whose count reaches zero is not in the dict.
\<close>

theorem counts_on_stack_positive:
  assumes "search_stacks width distances points st" "(cs, ps) \<in> set st"
  shows "(\<forall>(k, v) \<in> set cs. 0 < v) \<and> distinct (map fst cs)"
  using search_stacks_positive [OF assms]
  by (simp add: positive_counts_def list_all_iff)

lemma sum_total: "positive_counts cs \<Longrightarrow> sum_list (map snd cs) = int (total cs)"
  unfolding positive_counts_def total_def
  by (induction cs) auto

theorem counts_on_stack_positive_witness:
  "search_stacks 3 [1, 2] [0, 3] [([(1, 1), (2, 1)], [0, 3])] \<and>
   ([(1, 1), (2, 1)], [0, 3]) \<in> set [([(1, 1), (2, 1)], [0, 3 :: int])] \<and>
   list_all (\<lambda>(k, v). 0 < v) [(1 :: int, 1 :: int), (2, 1)] \<and>
   distinct (map fst [(1 :: int, 1 :: int), (2, 1)])"
proof -
  have s: "search_stacks 3 [1, 2] [0, 3] [([(1, 1), (2, 1)], [0, 3])]"
    unfolding search_stacks_def
    using reached.start [of 3 "[([(1, 1), (2, 1)], [0, 3])]"]
    by (simp add: create_distance_counts_def)
  have m: "([(1, 1), (2, 1)], [0, 3]) \<in> set [([(1, 1), (2, 1)], [0, 3 :: int])]" by simp
  show ?thesis using s m counts_on_stack_positive [OF s m] by simp
qed

section \<open>The remaining total shrinks by the number of placed points\<close>

lemma search_stacks_nonempty_points:
  assumes "search_stacks width distances points st" "(cs, ps) \<in> set st" "points \<noteq> []"
  shows "ps \<noteq> []"
proof -
  have "snd (cs, ps) \<noteq> []"
  proof (rule reached_invariant [where I = "\<lambda>e. snd e \<noteq> []"])
    show "reached width [(create_distance_counts distances, points)] st"
      using assms(1) by (simp add: search_stacks_def)
    show "(cs, ps) \<in> set st" by (rule assms(2))
  next
    fix e assume "e \<in> set [(create_distance_counts distances, points)]"
    then show "snd e \<noteq> []" using assms(3) by simp
  next
    fix c cs ps child
    assume "try_candidate c cs ps = Inr (Some child)"
    then show "snd child \<noteq> []"
      using try_candidate_Some [of c cs ps "fst child" "snd child"] by simp
  qed
  then show ?thesis by simp
qed

text \<open>
  C4, as the code has it. Whenever \<^verbatim>\<open>find_solution\<close> derives a child entry
  \<open>(new_counts, new_points)\<close> from an entry \<open>(curr_counts, curr_points)\<close> of its stack, the
  sum of the counts of the child is the sum of the counts of the parent minus the number
  of points of the parent. The sum strictly decreases whenever the parent has at least one
  point, and it has in every search that is started on a non-empty point list, as
  \<^verbatim>\<open>partial_digest\<close> starts it on \<^verbatim>\<open>[0, width]\<close>.
\<close>

theorem child_sum_decreases:
  assumes "search_stacks width distances points st"
    and "(curr_counts, curr_points) \<in> set st"
    and "try_candidate candidate curr_counts curr_points = Inr (Some (new_counts, new_points))"
  shows "sum_list (map snd new_counts) = sum_list (map snd curr_counts) - int (length curr_points)
         \<and> (curr_points \<noteq> [] \<longrightarrow>
              sum_list (map snd new_counts) < sum_list (map snd curr_counts))
         \<and> (points \<noteq> [] \<longrightarrow> curr_points \<noteq> [])"
proof -
  have p: "positive_counts curr_counts"
    by (rule search_stacks_positive [OF assms(1,2)])
  have p': "positive_counts new_counts"
    by (rule try_candidate_positive [OF assms(3) p])
  have t: "total new_counts + length curr_points = total curr_counts"
    using try_candidate_Some [OF assms(3)] by simp
  have eq: "sum_list (map snd new_counts) = sum_list (map snd curr_counts) - int (length curr_points)"
    using t by (simp add: sum_total [OF p] sum_total [OF p'])
  have "curr_points \<noteq> []" if "points \<noteq> []"
    by (rule search_stacks_nonempty_points [OF assms(1,2) that])
  with eq show ?thesis by simp
qed

theorem child_sum_decreases_witness:
  "search_stacks 3 [1, 2] [0, 3] [([(1, 1), (2, 1)], [0, 3])] \<and>
   try_candidate 2 [(1, 1), (2, 1)] [0, 3] = Inr (Some ([], [0, 3, 2])) \<and>
   sum_list (map snd ([] :: counts)) = sum_list (map snd [(1 :: int, 1 :: int), (2, 1)]) - int (length [0, 3 :: int]) \<and>
   [0, 3 :: int] \<noteq> [] \<and>
   sum_list (map snd ([] :: counts)) < sum_list (map snd [(1 :: int, 1 :: int), (2, 1)])"
proof -
  have s: "search_stacks 3 [1, 2] [0, 3] [([(1, 1), (2, 1)], [0, 3])]"
    unfolding search_stacks_def
    using reached.start [of 3 "[([(1, 1), (2, 1)], [0, 3])]"]
    by (simp add: create_distance_counts_def)
  have m: "([(1, 1), (2, 1)], [0, 3]) \<in> set [([(1, 1), (2, 1)], [0, 3 :: int])]" by simp
  have c: "try_candidate 2 [(1, 1), (2, 1)] [0, 3] = Inr (Some ([], [0, 3, 2]))"
    by (simp add: try_candidate_def calculate_distances_def can_remove_distances_Cons
        can_remove_distances_Nil)
  show ?thesis using s c child_sum_decreases [OF s m c] by simp
qed

text \<open>
  C4 as stated fails: it promises a strict decrease on every accepted branch of every
  call of \<^verbatim>\<open>find_solution\<close>. In the call \<^verbatim>\<open>find_solution(3, [1], [])\<close> the first entry has
  no points, so both candidates have no distance to remove and are accepted: the children
  \<^verbatim>\<open>({1: 1}, [1])\<close> and \<^verbatim>\<open>({1: 1}, [2])\<close> are pushed with the sum \<open>1\<close> of their parent.
\<close>

theorem child_sum_same_without_points:
  "search_stacks 3 [1] [] [([(1, 1)], [])] \<and>
   max_key [(1, 1)] = Inr 1 \<and>
   try_candidate 1 [(1, 1)] [] = Inr (Some ([(1, 1)], [1])) \<and>
   loop_body 3 ([(1, 1)], []) [] = Next [([(1, 1)], [2]), ([(1, 1)], [1])] \<and>
   \<not> sum_list (map snd [(1 :: int, 1 :: int)]) < sum_list (map snd [(1 :: int, 1 :: int)])"
proof -
  have s: "search_stacks 3 [1] [] [([(1, 1)], [])]"
    unfolding search_stacks_def
    using reached.start [of 3 "[([(1, 1)], [])]"]
    by (simp add: create_distance_counts_def)
  have mk: "max_key [(1, 1)] = Inr 1" by (simp add: max_key_def py_max_def)
  have c1: "try_candidate 1 [(1, 1)] [] = Inr (Some ([(1, 1)], [1]))"
    by (simp add: try_candidate_def calculate_distances_def can_remove_distances_Nil)
  have c2: "try_candidate 2 [(1, 1)] [] = Inr (Some ([(1, 1)], [2]))"
    by (simp add: try_candidate_def calculate_distances_def can_remove_distances_Nil)
  have "loop_body 3 ([(1, 1)], []) [] = Next [([(1, 1)], [2]), ([(1, 1)], [1])]"
    by (simp add: loop_body_def mk c1 c2 push_def)
  with s mk c1 show ?thesis by simp
qed

section \<open>The maximum is never taken of an empty dict\<close>

lemma positive_sum_zero: "positive_counts cs \<Longrightarrow> sum_list (map snd cs) = 0 \<longleftrightarrow> cs = []"
proof
  assume p: "positive_counts cs" and z: "sum_list (map snd cs) = 0"
  show "cs = []"
  proof (cases cs)
    case Nil
    then show ?thesis .
  next
    case (Cons a rest)
    obtain k v where a: "a = (k, v)" by (cases a)
    from p Cons a have "0 < v" "positive_counts rest"
      by (auto simp: positive_counts_def)
    with sum_total [of rest] have "0 < sum_list (map snd cs)" using Cons a by simp
    with z show ?thesis by simp
  qed
qed simp

text \<open>
  C8. \<^verbatim>\<open>find_solution\<close> returns on every input and raises nothing. On every stack it
  goes through, the success test \<open>sum = 0\<close> on the popped entry holds exactly when its dict
  is empty, so when the test fails \<^verbatim>\<open>max(curr_counts.keys())\<close> is taken of a non-empty
  dict and does not raise.
\<close>

theorem max_key_never_raises:
  "(\<exists>r. find_solution width distances points = Inr r) \<and>
   (\<forall>cs ps rest. search_stacks width distances points ((cs, ps) # rest) \<longrightarrow>
      (sum_list (map snd cs) = 0 \<longleftrightarrow> cs = []) \<and>
      (sum_list (map snd cs) \<noteq> 0 \<longrightarrow> (\<exists>m. max_key cs = Inr m)))"
proof (intro conjI allI impI)
  show "\<exists>r. find_solution width distances points = Inr r"
    unfolding find_solution_def Let_def by (rule find_loop_no_raise)
next
  fix cs ps rest
  assume s: "search_stacks width distances points ((cs, ps) # rest)"
  have "positive_counts cs"
    by (rule search_stacks_positive [OF s, of cs ps]) simp
  then show "sum_list (map snd cs) = 0 \<longleftrightarrow> cs = []" by (rule positive_sum_zero)
next
  fix cs :: counts
  assume "sum_list (map snd cs) \<noteq> 0"
  then show "\<exists>m. max_key cs = Inr m"
    by (intro max_key_nonempty sum_nonzero_nonempty)
qed

theorem max_key_never_raises_witness:
  "find_solution 3 [1, 2] [0, 3] = Inr (Some [0, 1, 3]) \<and>
   search_stacks 3 [1, 2] [0, 3] [([(1, 1), (2, 1)], [0, 3])] \<and>
   sum_list (map snd [(1 :: int, 1 :: int), (2, 1)]) \<noteq> (0 :: int) \<and>
   max_key [(1, 1), (2, 1)] = Inr 2"
proof -
  have s: "search_stacks 3 [1, 2] [0, 3] [([(1, 1), (2, 1)], [0, 3])]"
    unfolding search_stacks_def
    using reached.start [of 3 "[([(1, 1), (2, 1)], [0, 3])]"]
    by (simp add: create_distance_counts_def)
  have c2: "try_candidate 2 [(1, 1), (2, 1)] [0, 3] = Inr (Some ([], [0, 3, 2]))"
    by (simp add: try_candidate_def calculate_distances_def can_remove_distances_Cons
        can_remove_distances_Nil)
  have c1: "try_candidate 1 [(1, 1), (2, 1)] [0, 3] = Inr (Some ([], [0, 3, 1]))"
    by (simp add: try_candidate_def calculate_distances_def can_remove_distances_Cons
        can_remove_distances_Nil)
  have mk: "max_key [(1, 1), (2, 1)] = Inr 2" by (simp add: max_key_def py_max_def)
  have f: "find_solution 3 [1, 2] [0, 3] = Inr (Some [0, 1, 3])"
    by (simp add: find_solution_def create_distance_counts_def loop_body_def mk c1 c2 push_def)
  show ?thesis
    using s mk f max_key_never_raises [of 3 "[1, 2]" "[0, 3]"] by simp
qed

section \<open>The points on the stack\<close>

lemma py_max_Max: "py_max xs = Inr W \<Longrightarrow> xs \<noteq> [] \<and> W = Max (set xs)"
proof (cases xs)
  case Nil
  assume "py_max xs = Inr W"
  with Nil show ?thesis by (simp add: py_max_def)
next
  case (Cons a list)
  assume "py_max xs = Inr W"
  with Cons have "W = fold max list a" by (simp add: py_max_def)
  also have "\<dots> = Max (set (a # list))" by (rule Max.set_eq_fold [symmetric])
  finally show ?thesis using Cons by simp
qed

lemma py_max_in: "py_max xs = Inr W \<Longrightarrow> W \<in> set xs"
  using py_max_Max [of xs W] Max_in [of "set xs"] by auto

lemma py_max_ge: "py_max xs = Inr W \<Longrightarrow> x \<in> set xs \<Longrightarrow> x \<le> W"
  using py_max_Max [of xs W] Max_ge [of "set xs" x] by auto

lemma search_stacks_points:
  assumes "search_stacks width distances points st" "(cs, ps) \<in> set st" "distinct points"
  shows "set points \<subseteq> set ps \<and> distinct ps"
proof -
  have "set points \<subseteq> set (snd (cs, ps)) \<and> distinct (snd (cs, ps))"
  proof (rule reached_invariant [where I = "\<lambda>e. set points \<subseteq> set (snd e) \<and> distinct (snd e)"])
    show "reached width [(create_distance_counts distances, points)] st"
      using assms(1) by (simp add: search_stacks_def)
    show "(cs, ps) \<in> set st" by (rule assms(2))
  next
    fix e assume "e \<in> set [(create_distance_counts distances, points)]"
    then show "set points \<subseteq> set (snd e) \<and> distinct (snd e)" using assms(3) by simp
  next
    fix c cs ps child
    assume "set points \<subseteq> set (snd (cs, ps)) \<and> distinct (snd (cs, ps))"
      and "try_candidate c cs ps = Inr (Some child)"
    then show "set points \<subseteq> set (snd child) \<and> distinct (snd child)"
      using try_candidate_Some [of c cs ps "fst child" "snd child"] by auto
  qed
  then show ?thesis by simp
qed

lemma find_solution_Some:
  assumes "find_solution width distances points = Inr (Some sol)"
  obtains cs ps rest where "search_stacks width distances points ((cs, ps) # rest)"
    "sum_list (map snd cs) = 0" "sol = sort ps"
  using find_loop_Some [of width "[(create_distance_counts distances, points)]" sol] assms
  by (auto simp: find_solution_def search_stacks_def)

text \<open>
  C6. For every non-empty list of positive integers with maximum \<open>W\<close>, every point list on
  a stack of the search that \<^verbatim>\<open>partial_digest\<close> starts contains \<open>0\<close> and \<open>W\<close> and has no
  value twice, and so does every solution that \<^verbatim>\<open>partial_digest\<close> returns.
\<close>

theorem points_on_stack:
  assumes "fragment_lengths \<noteq> []"
    and "\<forall>d \<in> set fragment_lengths. 0 < d"
    and "py_max fragment_lengths = Inr W"
  shows "(\<forall>st cs ps. search_stacks W (filter (\<lambda>d. d \<noteq> W) fragment_lengths) [0, W] st \<and>
             (cs, ps) \<in> set st \<longrightarrow> 0 \<in> set ps \<and> W \<in> set ps \<and> distinct ps)
         \<and> (\<forall>sol. partial_digest fragment_lengths = Inr (Some sol) \<longrightarrow>
               0 \<in> set sol \<and> W \<in> set sol \<and> distinct sol)"
proof -
  let ?ds = "filter (\<lambda>d. d \<noteq> W) fragment_lengths"
  have "0 < W" using py_max_in [OF assms(3)] assms(2) by blast
  then have d: "distinct [0, W]" by simp
  have inv: "0 \<in> set ps \<and> W \<in> set ps \<and> distinct ps"
    if "search_stacks W ?ds [0, W] st" "(cs, ps) \<in> set st" for st cs ps
    using search_stacks_points [OF that d] by simp
  have "0 \<in> set sol \<and> W \<in> set sol \<and> distinct sol"
    if "partial_digest fragment_lengths = Inr (Some sol)" for sol
  proof -
    from that assms(1,3) have "find_solution W ?ds [0, W] = Inr (Some sol)"
      by (simp add: partial_digest_def)
    then obtain cs ps rest where "search_stacks W ?ds [0, W] ((cs, ps) # rest)" "sol = sort ps"
      by (rule find_solution_Some)
    with inv [of "(cs, ps) # rest" cs ps] show ?thesis by simp
  qed
  with inv show ?thesis by blast
qed

theorem points_on_stack_witness:
  "[1, 2, 3 :: int] \<noteq> [] \<and> list_all (\<lambda>d. 0 < d) [1, 2, 3 :: int] \<and> py_max [1, 2, 3] = Inr 3 \<and>
   search_stacks 3 (filter (\<lambda>d. d \<noteq> 3) [1, 2, 3]) [0, 3] [([(1, 1), (2, 1)], [0, 3])] \<and>
   partial_digest [1, 2, 3] = Inr (Some [0, 1, 3]) \<and>
   0 \<in> set [0, 1, 3 :: int] \<and> 3 \<in> set [0, 1, 3 :: int] \<and> distinct [0, 1, 3 :: int]"
proof -
  have a: "[1, 2, 3 :: int] \<noteq> []" "\<forall>d \<in> set [1, 2, 3 :: int]. 0 < d" by simp_all
  have m: "py_max [1, 2, 3] = Inr 3" by (simp add: py_max_def)
  have s: "search_stacks 3 (filter (\<lambda>d. d \<noteq> 3) [1, 2, 3]) [0, 3] [([(1, 1), (2, 1)], [0, 3])]"
    unfolding search_stacks_def
    using reached.start [of 3 "[([(1, 1), (2, 1)], [0, 3])]"]
    by (simp add: create_distance_counts_def)
  have c2: "try_candidate 2 [(1, 1), (2, 1)] [0, 3] = Inr (Some ([], [0, 3, 2]))"
    by (simp add: try_candidate_def calculate_distances_def can_remove_distances_Cons
        can_remove_distances_Nil)
  have c1: "try_candidate 1 [(1, 1), (2, 1)] [0, 3] = Inr (Some ([], [0, 3, 1]))"
    by (simp add: try_candidate_def calculate_distances_def can_remove_distances_Cons
        can_remove_distances_Nil)
  have mk: "max_key [(1, 1), (2, 1)] = Inr 2" by (simp add: max_key_def py_max_def)
  have f: "partial_digest [1, 2, 3] = Inr (Some [0, 1, 3])"
    by (simp add: partial_digest_def m find_solution_def create_distance_counts_def
        loop_body_def mk c1 c2 push_def)
  show ?thesis
    using a m s f points_on_stack [OF a m] by simp
qed

section \<open>The multiset of a dict of counts\<close>

lemma mset_of_Nil: "mset_of [] = {#}"
  by (simp add: mset_of_def)

lemma mset_of_Cons: "mset_of ((k, v) # cs) = replicate_mset (nat v) k + mset_of cs"
  by (simp add: mset_of_def)

lemma mset_of_update_dec:
  "map_of cs d = Some c \<Longrightarrow> 0 < c \<Longrightarrow> mset_of cs = mset_of (AList.update d (c - 1) cs) + {#d#}"
proof (induction cs)
  case Nil
  then show ?case by simp
next
  case (Cons a cs)
  obtain k v where a: "a = (k, v)" by (cases a)
  show ?case
  proof (cases "k = d")
    case True
    with Cons.prems a have "nat c = Suc (nat (c - 1))" "v = c" by auto
    with True a show ?thesis by (simp add: mset_of_Cons)
  next
    case False
    with Cons a show ?thesis by (simp add: mset_of_Cons)
  qed
qed

lemma mset_of_update_inc:
  "map_of cs d = Some c \<Longrightarrow> 0 \<le> c \<Longrightarrow> mset_of (AList.update d (c + 1) cs) = mset_of cs + {#d#}"
proof (induction cs)
  case Nil
  then show ?case by simp
next
  case (Cons a cs)
  obtain k v where a: "a = (k, v)" by (cases a)
  show ?case
  proof (cases "k = d")
    case True
    with Cons.prems a have "nat (c + 1) = Suc (nat c)" "v = c" by auto
    with True a show ?thesis by (simp add: mset_of_Cons)
  next
    case False
    with Cons a show ?thesis by (simp add: mset_of_Cons)
  qed
qed

lemma mset_of_update_new:
  "map_of cs d = None \<Longrightarrow> mset_of (AList.update d 1 cs) = mset_of cs + {#d#}"
proof (induction cs)
  case Nil
  then show ?case by (simp add: mset_of_def)
next
  case (Cons a cs)
  obtain k v where a: "a = (k, v)" by (cases a)
  with Cons show ?case by (auto simp: mset_of_Cons split: if_splits)
qed

lemma mset_of_filter: "mset_of (filter (\<lambda>(k, v). v > 0) cs) = mset_of cs"
  by (induction cs) (auto simp: mset_of_def)

lemma mset_of_decrement_all:
  "can_remove_distances batch cs \<Longrightarrow> decrement_all batch cs = Inr dec \<Longrightarrow>
     mset_of cs = mset_of dec + mset batch"
proof (induction batch arbitrary: cs)
  case Nil
  then show ?case by simp
next
  case (Cons d rest)
  from Cons.prems(1) obtain c where c: "map_of cs d = Some c" "0 < c"
      and r: "can_remove_distances rest (AList.update d (c - 1) cs)"
    by (auto simp: can_remove_distances_Cons split: option.splits)
  from Cons.prems(2) c have "decrement_all rest (AList.update d (c - 1) cs) = Inr dec" by simp
  from Cons.IH [OF r this] mset_of_update_dec [OF c] show ?case by simp
qed

lemma try_candidate_mset:
  assumes "try_candidate c cs ps = Inr (Some (cs', ps'))"
  shows "mset_of cs = mset_of cs' + mset (calculate_distances c ps)"
proof -
  let ?b = "calculate_distances c ps"
  from assms have cr: "can_remove_distances ?b cs"
    by (auto simp: try_candidate_def Let_def split: if_splits)
  from decrement_all_total [OF cr] obtain dec where
    dec: "decrement_all ?b cs = Inr dec" by blast
  from assms cr dec have "cs' = filter (\<lambda>(k, v). v > 0) dec"
    by (auto simp: try_candidate_def Let_def split: if_splits)
  with mset_of_decrement_all [OF cr dec] show ?thesis by (simp add: mset_of_filter)
qed

lemma mset_of_count_loop:
  "positive_counts cs \<Longrightarrow> mset_of (count_loop ds cs) = mset_of cs + mset ds"
proof (induction ds arbitrary: cs)
  case Nil
  then show ?case by simp
next
  case (Cons d ds)
  show ?case
  proof (cases "map_of cs d")
    case None
    with Cons.prems have "positive_counts (AList.update d 1 cs)"
      by (simp add: positive_counts_update)
    from Cons.IH [OF this] None show ?thesis by (simp add: mset_of_update_new)
  next
    case (Some c)
    then have "(d, c) \<in> set cs" by (rule map_of_SomeD)
    with Cons.prems have c: "0 < c" by (auto simp: positive_counts_def list_all_iff)
    with Cons.prems have "positive_counts (AList.update d (c + 1) cs)"
      by (simp add: positive_counts_update)
    from Cons.IH [OF this] Some c show ?thesis by (simp add: mset_of_update_inc)
  qed
qed

lemma mset_of_create: "mset_of (create_distance_counts ds) = mset ds"
  unfolding create_distance_counts_def
  using mset_of_count_loop [of "[]" ds] by (simp add: positive_counts_def mset_of_Nil)

lemma count_mset_of:
  "distinct (map fst cs) \<Longrightarrow>
     count (mset_of cs) x = (case map_of cs x of None \<Rightarrow> 0 | Some c \<Rightarrow> nat c)"
proof (induction cs)
  case Nil
  then show ?case by (simp add: mset_of_Nil)
next
  case (Cons a cs)
  obtain k v where a: "a = (k, v)" by (cases a)
  show ?case
  proof (cases "k = x")
    case True
    with Cons.prems a have "map_of cs x = None" by (simp add: map_of_eq_None_iff)
    with Cons a True show ?thesis by (simp add: mset_of_Cons)
  next
    case False
    with Cons a show ?thesis by (simp add: mset_of_Cons)
  qed
qed

lemma can_remove_distances_subset:
  assumes "distinct (map fst cs)" "mset batch \<subseteq># mset_of cs"
  shows "can_remove_distances batch cs"
  unfolding can_remove_distances_iff
proof
  fix v assume v: "v \<in> set batch"
  have "count (mset batch) v \<le> count (mset_of cs) v"
    using assms(2) by (rule mset_subset_eq_count)
  moreover have "0 < count (mset batch) v" using v by simp
  ultimately show "\<exists>c. map_of cs v = Some c \<and> int (count_list batch v) \<le> c"
    by (auto simp: count_mset_of [OF assms(1)] count_mset split: option.splits)
qed

lemma set_mset_of: "positive_counts cs \<Longrightarrow> set_mset (mset_of cs) = fst ` set cs"
  unfolding positive_counts_def
proof (induction cs)
  case Nil
  then show ?case by (simp add: mset_of_Nil)
next
  case (Cons a cs)
  obtain k v where a: "a = (k, v)" by (cases a)
  with Cons show ?case by (auto simp: mset_of_Cons)
qed

lemma max_key_greatest:
  assumes "max_key cs = Inr m" "positive_counts cs"
  shows "m \<in># mset_of cs \<and> (\<forall>z \<in># mset_of cs. z \<le> m)"
  using py_max_in [of "map fst cs" m] py_max_ge [of "map fst cs" m] assms
  by (auto simp: max_key_def set_mset_of)

section \<open>\<^verbatim>\<open>all_pairwise_distances\<close> lists the distance of each pair of points\<close>

lemma pairwise_snoc:
  "distances_of (ps @ [c]) = distances_of ps + mset (calculate_distances c ps)"
  by (induction ps) (simp_all add: calculate_distances_def abs_minus_commute)

lemma mset_map_insort:
  "mset (map f (insort x xs)) = {#f x#} + mset (map f xs)"
proof -
  have "mset (map f (insort x xs)) = image_mset f (mset (insort x xs))" by simp
  also have "\<dots> = image_mset f ({#x#} + mset xs)" by simp
  finally show ?thesis by simp
qed

lemma pairwise_insort: "distances_of (insort x xs) = distances_of (x # xs)"
proof (induction xs)
  case Nil
  show ?case by simp
next
  case (Cons y ys)
  show ?case
  proof (cases "x \<le> y")
    case True
    then show ?thesis by simp
  next
    case False
    then have "distances_of (insort x (y # ys)) = mset (map (\<lambda>q. \<bar>q - y\<bar>) (insort x ys)) + distances_of (insort x ys)"
      by simp
    also have "\<dots> = {#\<bar>x - y\<bar>#} + mset (map (\<lambda>q. \<bar>q - y\<bar>) ys) + distances_of (x # ys)"
      by (simp add: mset_map_insort Cons.IH)
    also have "\<dots> = distances_of (x # y # ys)"
      by (simp add: abs_minus_commute)
    finally show ?thesis .
  qed
qed

lemma pairwise_sort: "distances_of (sort xs) = distances_of xs"
proof (induction xs)
  case Nil
  show ?case by simp
next
  case (Cons x xs)
  have "distances_of (sort (x # xs)) = distances_of (insort x (sort xs))" by (simp add: sort_key_simps)
  also have "\<dots> = distances_of (x # sort xs)" by (rule pairwise_insort)
  also have "\<dots> = distances_of (x # xs)" using Cons.IH by simp
  finally show ?case .
qed

lemma rows_Cons:
  "concat (map (\<lambda>i. map (\<lambda>j. \<bar>(x # xs) ! j - (x # xs) ! i\<bar>) [i + 1 ..< length (x # xs)])
               [0 ..< length (x # xs)])
   = map (\<lambda>q. \<bar>q - x\<bar>) xs
     @ concat (map (\<lambda>i. map (\<lambda>j. \<bar>xs ! j - xs ! i\<bar>) [i + 1 ..< length xs]) [0 ..< length xs])"
proof -
  let ?n = "length xs"
  have up: "[0 ..< Suc ?n] = 0 # map Suc [0 ..< ?n]"
    by (subst upt_rec) (simp add: map_Suc_upt del: upt_Suc)
  have row0: "map (\<lambda>j. \<bar>(x # xs) ! j - x\<bar>) [Suc 0 ..< Suc ?n] = map (\<lambda>q. \<bar>q - x\<bar>) xs"
  proof -
    have "map (\<lambda>j. \<bar>(x # xs) ! j - x\<bar>) [Suc 0 ..< Suc ?n]
          = map (\<lambda>j. \<bar>(x # xs) ! j - x\<bar>) (map Suc [0 ..< ?n])"
      by (simp only: map_Suc_upt)
    also have "\<dots> = map (\<lambda>j. \<bar>xs ! j - x\<bar>) [0 ..< ?n]" by simp
    also have "\<dots> = map (\<lambda>q. \<bar>q - x\<bar>) (map (\<lambda>j. xs ! j) [0 ..< ?n])" by simp
    also have "\<dots> = map (\<lambda>q. \<bar>q - x\<bar>) xs" by (simp only: map_nth)
    finally show ?thesis .
  qed
  have rowS: "map (\<lambda>j. \<bar>(x # xs) ! j - (x # xs) ! Suc i\<bar>) [Suc i + 1 ..< Suc ?n]
              = map (\<lambda>j. \<bar>xs ! j - xs ! i\<bar>) [i + 1 ..< ?n]" for i
  proof -
    have "[Suc i + 1 ..< Suc ?n] = map Suc [i + 1 ..< ?n]" by (simp add: map_Suc_upt)
    then show ?thesis by (simp del: upt_Suc)
  qed
  have "concat (map (\<lambda>i. map (\<lambda>j. \<bar>(x # xs) ! j - (x # xs) ! i\<bar>) [i + 1 ..< Suc ?n])
               [0 ..< Suc ?n])
        = map (\<lambda>j. \<bar>(x # xs) ! j - x\<bar>) [Suc 0 ..< Suc ?n]
          @ concat (map (\<lambda>i. map (\<lambda>j. \<bar>(x # xs) ! j - (x # xs) ! Suc i\<bar>) [Suc i + 1 ..< Suc ?n])
               [0 ..< ?n])"
    unfolding up by (simp add: comp_def del: upt_Suc)
  then show ?thesis by (simp only: row0 rowS length_Cons)
qed

lemma mset_rows:
  "mset (concat (map (\<lambda>i. map (\<lambda>j. \<bar>xs ! j - xs ! i\<bar>) [i + 1 ..< length xs]) [0 ..< length xs]))
   = distances_of xs"
proof (induction xs)
  case Nil
  show ?case by simp
next
  case (Cons x xs)
  show ?case unfolding rows_Cons using Cons.IH by simp
qed

lemma mset_all_pairwise_distances: "mset (all_pairwise_distances ps) = distances_of ps"
  unfolding all_pairwise_distances_def Let_def
  by (simp only: mset_sort mset_rows pairwise_sort)

section \<open>What a returned solution accounts for\<close>

lemma search_stacks_mset:
  assumes "search_stacks width distances points st" "(cs, ps) \<in> set st"
  shows "mset_of cs + distances_of ps = mset distances + distances_of points"
proof -
  let ?I = "\<lambda>e. mset_of (fst e) + distances_of (snd e) = mset distances + distances_of points"
  have "?I (cs, ps)"
  proof (rule reached_invariant [where I = ?I])
    show "reached width [(create_distance_counts distances, points)] st"
      using assms(1) by (simp add: search_stacks_def)
    show "(cs, ps) \<in> set st" by (rule assms(2))
  next
    fix e assume "e \<in> set [(create_distance_counts distances, points)]"
    then show "?I e" by (simp add: mset_of_create)
  next
    fix c cs ps child
    assume I: "?I (cs, ps)" and t: "try_candidate c cs ps = Inr (Some child)"
    obtain cs' ps' where ch: "child = (cs', ps')" by (cases child)
    from try_candidate_Some [OF t [unfolded ch]] have ps': "ps' = ps @ [c]" by simp
    from try_candidate_mset [OF t [unfolded ch]] I
    show "?I child" by (simp add: ch ps' pairwise_snoc ac_simps)
  qed
  then show ?thesis by simp
qed

lemma find_solution_sound:
  assumes "find_solution width distances points = Inr (Some sol)"
  shows "mset (all_pairwise_distances sol) = mset distances + distances_of points"
proof -
  from assms obtain cs ps rest where
    s: "search_stacks width distances points ((cs, ps) # rest)"
    and z: "sum_list (map snd cs) = 0" and sol: "sol = sort ps"
    by (rule find_solution_Some)
  have "positive_counts cs" by (rule search_stacks_positive [OF s, of cs ps]) simp
  with z have "cs = []" by (simp add: positive_sum_zero)
  moreover have "mset_of cs + distances_of ps = mset distances + distances_of points"
    by (rule search_stacks_mset [OF s]) simp
  ultimately show ?thesis
    by (simp add: sol mset_all_pairwise_distances pairwise_sort mset_of_Nil)
qed

lemma partial_digest_sound:
  assumes "py_max ds = Inr W" "partial_digest ds = Inr (Some sol)"
  shows "mset (all_pairwise_distances sol) = mset (filter (\<lambda>d. d \<noteq> W) ds) + {#\<bar>W\<bar>#}"
proof -
  from assms have "find_solution W (filter (\<lambda>d. d \<noteq> W) ds) [0, W] = Inr (Some sol)"
    by (auto simp: partial_digest_def split: if_splits)
  from find_solution_sound [OF this] show ?thesis by simp
qed

text \<open>
  For an input of positive distances, the distances of the returned points are the input
  without the further copies of its maximum.
\<close>

lemma partial_digest_distances:
  assumes "\<forall>d \<in> set ds. 0 < d" "py_max ds = Inr W" "partial_digest ds = Inr (Some sol)"
  shows "mset (all_pairwise_distances sol) + replicate_mset (count_list ds W - 1) W = mset ds"
proof -
  have W: "W \<in> set ds" by (rule py_max_in [OF assms(2)])
  with assms(1) have "0 < W" by blast
  have "count_list ds W \<noteq> 0" using W by (simp add: count_list_0_iff)
  then have "replicate_mset (count_list ds W) W = {#W#} + replicate_mset (count_list ds W - 1) W"
    by (cases "count_list ds W") simp_all
  moreover have "mset ds = mset (filter (\<lambda>d. d \<noteq> W) ds) + replicate_mset (count_list ds W) W"
    by (induction ds) auto
  ultimately show ?thesis
    using partial_digest_sound [OF assms(2,3)] \<open>0 < W\<close> by simp
qed

text \<open>
  C1. The claim is that the distances of a returned point list are exactly the input
  distances, with the same multiplicities. On the input \<^verbatim>\<open>[2, 2]\<close> the code does not do
  that: \<^verbatim>\<open>partial_digest\<close> drops both copies of the maximum, returns \<^verbatim>\<open>[0, 2]\<close>, and the
  distances of \<^verbatim>\<open>[0, 2]\<close> are \<^verbatim>\<open>[2]\<close>, one distance short of the input.
\<close>

theorem partial_digest_repeated_maximum:
  "partial_digest [2, 2] = Inr (Some [0, 2]) \<and>
   all_pairwise_distances [0, 2] = [2] \<and>
   mset (all_pairwise_distances [0, 2]) \<noteq> mset [2, 2]"
proof -
  have "partial_digest [2, 2] = Inr (Some [0, 2])"
    by (simp add: partial_digest_def py_max_def find_solution_def create_distance_counts_def
        loop_body_def)
  moreover have "all_pairwise_distances [0, 2] = [2]"
    by (simp add: all_pairwise_distances_def upt_rec)
  ultimately show ?thesis by simp
qed

text \<open>
  C2. The claim is that the search starts on the input with one occurrence of the width
  \<open>W\<close> removed, and the points \<^verbatim>\<open>[0, W]\<close>. On the input \<^verbatim>\<open>[2, 2]\<close> the width is \<open>2\<close> and
  the points are \<^verbatim>\<open>[0, 2]\<close>, but the search starts on the empty dict: the comprehension
  \<^verbatim>\<open>[d for d in fragment_lengths if d != width]\<close> removes every occurrence. Removing one
  occurrence would leave the dict \<^verbatim>\<open>{2: 1}\<close>.
\<close>

theorem partial_digest_start_repeated_maximum:
  "py_max [2, 2] = Inr 2 \<and>
   partial_digest [2, 2] = find_solution 2 [] [0, 2] \<and>
   search_stacks 2 [] [0, 2] [([], [0, 2])] \<and>
   create_distance_counts (remove1 2 [2, 2]) = [(2, 1)]"
proof -
  have "search_stacks 2 [] [0, 2] [([], [0, 2])]"
    unfolding search_stacks_def
    using reached.start [of 2 "[([], [0, 2])]"]
    by (simp add: create_distance_counts_def)
  then show ?thesis
    by (simp add: partial_digest_def py_max_def create_distance_counts_def)
qed

section \<open>The search finds a point set when there is one\<close>

lemma between_remove1:
  "y \<in> set rs \<Longrightarrow> between ps rs = mset (calculate_distances y ps) + between ps (remove1 y rs)"
  by (induction rs) auto

lemma mset_map_remove1:
  "y \<in> set rs \<Longrightarrow> mset (map f rs) = {#f y#} + mset (map f (remove1 y rs))"
  by (induction rs) auto

lemma distances_of_remove1:
  "y \<in> set rs \<Longrightarrow>
     distances_of rs = mset (calculate_distances y (remove1 y rs)) + distances_of (remove1 y rs)"
proof (induction rs)
  case Nil
  then show ?case by simp
next
  case (Cons r rs)
  show ?case
  proof (cases "r = y")
    case True
    then show ?thesis by (simp add: calculate_distances_def)
  next
    case False
    with Cons.prems have y: "y \<in> set rs" by simp
    have "distances_of (r # rs) = mset (map (\<lambda>q. \<bar>q - r\<bar>) rs) + distances_of rs" by simp
    also have "\<dots> = {#\<bar>y - r\<bar>#} + mset (map (\<lambda>q. \<bar>q - r\<bar>) (remove1 y rs))
        + (mset (calculate_distances y (remove1 y rs)) + distances_of (remove1 y rs))"
      using Cons.IH [OF y] mset_map_remove1 [OF y, of "\<lambda>q. \<bar>q - r\<bar>"] by simp
    also have "\<dots> = mset (calculate_distances y (remove1 y (r # rs)))
        + distances_of (remove1 y (r # rs))"
      using False by (simp add: calculate_distances_def abs_minus_commute)
    finally show ?thesis .
  qed
qed

lemma between_snoc:
  "between (ps @ [y]) rs = between ps rs + mset (calculate_distances y rs)"
  by (induction rs) (simp_all add: calculate_distances_def abs_minus_commute)

lemma in_between:
  "z \<in># between ps rs \<longleftrightarrow> (\<exists>x \<in> set ps. \<exists>y \<in> set rs. z = \<bar>x - y\<bar>)"
  by (induction rs) (auto simp: calculate_distances_def)

lemma in_distances_of:
  "z \<in># distances_of rs \<Longrightarrow> \<exists>x \<in> set rs. \<exists>y \<in> set rs. z = \<bar>x - y\<bar>"
proof (induction rs)
  case Nil
  then show ?case by simp
next
  case (Cons r rs)
  from Cons.prems consider "z \<in> (\<lambda>q. \<bar>q - r\<bar>) ` set rs" | "z \<in># distances_of rs" by auto
  then show ?case
  proof cases
    case 1
    then show ?thesis by auto
  next
    case 2
    from Cons.IH [OF 2] show ?thesis by auto
  qed
qed

lemma agrees_candidate:
  assumes a: "agrees W rs (cs, ps)" and m: "max_key cs = Inr m"
  shows "m \<in> set rs \<or> W - m \<in> set rs"
proof -
  from a have pos: "positive_counts cs"
    and eq: "mset_of cs = between ps rs + distances_of rs"
    and zero: "0 \<in> set ps" and width: "W \<in> set ps"
    and bounds: "\<And>x. x \<in> set ps \<union> set rs \<Longrightarrow> 0 \<le> x \<and> x \<le> W"
    by (auto simp: agrees_def list_all_iff)
  from max_key_greatest [OF m pos] have mem: "m \<in># mset_of cs"
    and top: "\<And>z. z \<in># mset_of cs \<Longrightarrow> z \<le> m" by auto
  have low: "y \<le> m" if "y \<in> set rs" for y
  proof -
    have "\<bar>0 - y\<bar> \<in># between ps rs" using zero that unfolding in_between by blast
    then have "\<bar>0 - y\<bar> \<le> m" using top by (simp add: eq)
    then show ?thesis by simp
  qed
  have high: "W - y \<le> m" if "y \<in> set rs" for y
  proof -
    have "\<bar>W - y\<bar> \<in># between ps rs" using width that unfolding in_between by blast
    then have "\<bar>W - y\<bar> \<le> m" using top by (simp add: eq)
    then show ?thesis by simp
  qed
  from mem eq obtain x y where xy: "x \<in> set ps \<union> set rs" "y \<in> set rs" "m = \<bar>x - y\<bar>"
    using in_between [of m ps rs] in_distances_of [of m rs] by auto
  show ?thesis
  proof (cases "x \<le> y")
    case True
    with xy low [OF xy(2)] bounds [OF xy(1)] have "y = m" by simp
    with xy(2) show ?thesis by simp
  next
    case False
    with xy high [OF xy(2)] bounds [OF xy(1)] have "y = W - m" by simp
    with xy(2) show ?thesis by simp
  qed
qed

lemma agrees_child:
  assumes a: "agrees W rs (cs, ps)" and y: "y \<in> set rs"
  shows "\<exists>child. try_candidate y cs ps = Inr (Some child) \<and> agrees W (remove1 y rs) child"
proof -
  let ?b = "calculate_distances y ps"
  let ?rs = "remove1 y rs"
  from a have pos: "positive_counts cs"
    and eq: "mset_of cs = between ps rs + distances_of rs"
    and dist: "distinct (ps @ rs)"
    and bounds: "list_all (\<lambda>x. 0 \<le> x \<and> x \<le> W) (ps @ rs)"
    and ends: "0 \<in> set ps" "W \<in> set ps"
    by (auto simp: agrees_def)
  have split: "mset_of cs = mset ?b + (between ps ?rs + mset (calculate_distances y ?rs)
                 + distances_of ?rs)"
    using eq between_remove1 [OF y, of ps] distances_of_remove1 [OF y] by simp
  then have "mset ?b \<subseteq># mset_of cs" by simp
  with pos have cr: "can_remove_distances ?b cs"
    by (intro can_remove_distances_subset) (simp_all add: positive_counts_def)
  from decrement_all_total [OF cr] obtain dec where dec: "decrement_all ?b cs = Inr dec"
    by blast
  have new: "y \<notin> set ps" using dist y by auto
  define cs' where "cs' = filter (\<lambda>(k, v). v > 0) dec"
  have t: "try_candidate y cs ps = Inr (Some (cs', ps @ [y]))"
    using cr dec new by (simp add: try_candidate_def cs'_def)
  have "mset_of cs = mset_of cs' + mset ?b" by (rule try_candidate_mset [OF t])
  with split have eq': "mset_of cs' = between (ps @ [y]) ?rs + distances_of ?rs"
    by (simp add: between_snoc)
  have set_rs: "set rs = insert y (set ?rs)" "y \<notin> set ?rs" "distinct ?rs"
    using dist y by (auto simp: set_remove1_eq)
  have "distinct ((ps @ [y]) @ ?rs)" using dist set_rs by auto
  moreover have "list_all (\<lambda>x. 0 \<le> x \<and> x \<le> W) ((ps @ [y]) @ ?rs)"
    using bounds y set_rs(1) by (auto simp: list_all_iff)
  moreover have "positive_counts cs'" by (rule try_candidate_positive [OF t pos])
  ultimately have "agrees W ?rs (cs', ps @ [y])"
    using ends eq' by (simp add: agrees_def)
  with t show ?thesis by blast
qed

lemma mem_push: "e \<in> set st \<Longrightarrow> e \<in> set (push r st)"
  by (simp add: push_def split: option.splits)

lemma mem_push_Some: "e \<in> set (push (Some e) st)"
  by (simp add: push_def)

lemma find_loop_agrees:
  "\<exists>e \<in> set st. \<exists>rs. agrees W rs e \<Longrightarrow> \<exists>sol. find_loop W st = Inr (Some sol)"
proof (induction W st rule: find_loop.induct)
  case (1 width)
  then show ?case by simp
next
  case (2 width e stack)
  show ?case
  proof (cases "loop_body width e stack")
    case (Raise err)
    then show ?thesis using loop_body_no_raise by blast
  next
    case (Return sol)
    then show ?thesis by simp
  next
    case (Next stack')
    obtain cs ps where e: "e = (cs, ps)" by (cases e)
    from Next [unfolded e] obtain m r1 r2 where
      m: "max_key cs = Inr m" and
      r1: "try_candidate m cs ps = Inr r1" and
      r2: "try_candidate (width - m) cs ps = Inr r2" and
      st': "stack' = push r2 (push r1 stack)"
      by (rule loop_body_Next)
    have "\<exists>e' \<in> set stack'. \<exists>rs. agrees width rs e'"
    proof (cases "\<exists>rs. agrees width rs e")
      case True
      then obtain rs where a: "agrees width rs (cs, ps)" unfolding e by blast
      from agrees_candidate [OF a m] show ?thesis
      proof
        assume "m \<in> set rs"
        from agrees_child [OF a this] r1 obtain child where
          "r1 = Some child" "agrees width (remove1 m rs) child" by auto
        then show ?thesis unfolding st' using mem_push [OF mem_push_Some] by blast
      next
        assume "width - m \<in> set rs"
        from agrees_child [OF a this] r2 obtain child where
          "r2 = Some child" "agrees width (remove1 (width - m) rs) child" by auto
        then show ?thesis unfolding st' using mem_push_Some by blast
      qed
    next
      case False
      with "2.prems" obtain e' rs where "e' \<in> set stack" "agrees width rs e'" by auto
      then show ?thesis unfolding st' using mem_push [OF mem_push] by blast
    qed
    from "2.IH" [OF Next this] Next show ?thesis by simp
  qed
qed

section \<open>Round trip\<close>

lemma py_max_nonempty: "xs \<noteq> [] \<Longrightarrow> py_max xs = Inr (Max (set xs))"
proof (cases xs)
  case Nil
  assume "xs \<noteq> []"
  with Nil show ?thesis by simp
next
  case (Cons a list)
  have "fold max list a = Max (set (a # list))" by (rule Max.set_eq_fold [symmetric])
  with Cons show ?thesis by (simp add: py_max_def)
qed

lemma between_Nil: "between [] rs = {#}"
  by (induction rs) (simp_all add: calculate_distances_def)

lemma between_ends:
  "between [0, W] rs = mset (calculate_distances 0 rs) + mset (calculate_distances W rs)"
  using between_snoc [of "[0]" W rs] between_snoc [of "[]" 0 rs]
  by (simp add: between_Nil)

lemma filter_mset_all: "(\<forall>z \<in># R. P z) \<Longrightarrow> filter_mset P R = R"
  by (induction R) auto

text \<open>
  C3. Round trip: for every sorted list \<open>P\<close> of distinct integers with at least two
  elements whose smallest element is \<open>0\<close> (so all are non-negative),
  \<^verbatim>\<open>partial_digest(all_pairwise_distances(P))\<close> returns a point list \<open>P2\<close>, not \<^verbatim>\<open>None\<close> and
  not an exception, and the pairwise distances of \<open>P2\<close> are those of \<open>P\<close>, with the same
  multiplicities.
\<close>

theorem round_trip:
  assumes "sorted P" "distinct P" "2 \<le> length P" "hd P = 0"
  shows "\<exists>P2. partial_digest (all_pairwise_distances P) = Inr (Some P2) \<and>
           mset (all_pairwise_distances P2) = mset (all_pairwise_distances P)"
proof -
  let ?D = "all_pairwise_distances P"
  obtain p rest where P1: "P = p # rest" using assms(3) by (cases P) auto
  with assms(3) have "rest \<noteq> []" by auto
  then have "rest = butlast rest @ [last rest]" by simp
  then obtain mid W where rest: "rest = mid @ [W]" by blast
  from assms(4) P1 have P: "P = 0 # mid @ [W]" by (simp add: rest)
  from assms(1,2) have mid: "0 < x \<and> x < W" if "x \<in> set mid" for x
    using that unfolding P by (auto simp: sorted_append less_le)
  from assms(1,2) have W: "0 < W" unfolding P by (auto simp: sorted_append less_le)
  define R where "R = between [0, W] mid + distances_of mid"
  have D: "mset ?D = R + {#W#}"
    using W by (simp add: mset_all_pairwise_distances P pairwise_snoc between_ends R_def
        calculate_distances_def)
  have small: "z < W" if "z \<in># R" for z
  proof -
    from that consider "z \<in># between [0, W] mid" | "z \<in># distances_of mid"
      unfolding R_def by auto
    then obtain x y where "x \<in> set [0, W] \<union> set mid" "y \<in> set mid" "z = \<bar>x - y\<bar>"
    proof cases
      case 1
      then obtain x y where "x \<in> set [0, W]" "y \<in> set mid" "z = \<bar>x - y\<bar>"
        unfolding in_between by blast
      then show ?thesis using that by blast
    next
      case 2
      from in_distances_of [OF 2] obtain x y where
        "x \<in> set mid" "y \<in> set mid" "z = \<bar>x - y\<bar>" by blast
      then show ?thesis using that by blast
    qed
    with mid [of y] mid [of x] W show ?thesis by auto
  qed
  have "?D \<noteq> []" using D by auto
  have setD: "set ?D = insert W (set_mset R)"
    using arg_cong [OF D, of set_mset] by simp
  have "Max (set ?D) = W"
  proof (rule Max_eqI)
    show "finite (set ?D)" by simp
    show "W \<in> set ?D" by (simp add: setD)
    fix z assume "z \<in> set ?D"
    then show "z \<le> W" using small [of z] by (auto simp: setD)
  qed
  with py_max_nonempty [OF \<open>?D \<noteq> []\<close>] have mx: "py_max ?D = Inr W" by simp
  let ?ds = "filter (\<lambda>d. d \<noteq> W) ?D"
  have "mset ?ds = filter_mset (\<lambda>d. d \<noteq> W) (mset ?D)"
    by (simp only: mset_filter)
  also have "\<dots> = filter_mset (\<lambda>d. d \<noteq> W) (R + {#W#})"
    by (simp only: D)
  also have "\<dots> = filter_mset (\<lambda>d. d \<noteq> W) R"
    by simp
  also have "\<dots> = R"
    using filter_mset_all [of R "\<lambda>d. d \<noteq> W"] small by auto
  finally have ds: "mset ?ds = R" .
  have pd: "partial_digest ?D = find_loop W [(create_distance_counts ?ds, [0, W])]"
    using \<open>?D \<noteq> []\<close> mx by (simp add: partial_digest_def find_solution_def)
  have "distinct ([0, W] @ mid)" using assms(2) unfolding P by auto
  moreover have "list_all (\<lambda>x. 0 \<le> x \<and> x \<le> W) ([0, W] @ mid)"
    using mid W by (auto simp: list_all_iff less_imp_le)
  moreover have "mset_of (create_distance_counts ?ds) = between [0, W] mid + distances_of mid"
    by (simp only: mset_of_create ds R_def)
  ultimately have "agrees W mid (create_distance_counts ?ds, [0, W])"
    by (simp add: agrees_def positive_counts_create)
  then have "\<exists>e \<in> set [(create_distance_counts ?ds, [0, W])]. \<exists>rs. agrees W rs e"
    by auto
  from find_loop_agrees [OF this] obtain sol where
    sol: "partial_digest ?D = Inr (Some sol)" unfolding pd by blast
  have "mset (all_pairwise_distances sol) = mset ?ds + {#\<bar>W\<bar>#}"
    by (rule partial_digest_sound [OF mx sol])
  also have "\<dots> = R + {#W#}" using W by (simp only: ds abs_of_pos)
  finally have "mset (all_pairwise_distances sol) = mset ?D" by (simp only: D)
  with sol show ?thesis by blast
qed

theorem round_trip_witness:
  "sorted [0, 1, 3 :: int] \<and> distinct [0, 1, 3 :: int] \<and> 2 \<le> length [0, 1, 3 :: int] \<and>
   hd [0, 1, 3 :: int] = 0 \<and>
   (\<exists>P2. partial_digest (all_pairwise_distances [0, 1, 3]) = Inr (Some P2) \<and>
      mset (all_pairwise_distances P2) = mset (all_pairwise_distances [0, 1, 3]))"
  using round_trip [of "[0, 1, 3]"] by simp

section \<open>Parsing the input string\<close>

text \<open>
  C10. The claim is that a string that is not a bracketed list of integers yields
  \<^verbatim>\<open>None\<close>. The code does not do that, whatever \<^verbatim>\<open>int\<close> accepts: it never looks at the
  brackets. The strings \<^verbatim>\<open>x\<close> and \<^verbatim>\<open>12\<close> yield the empty list; \<^verbatim>\<open>(1,2)\<close> yields what the
  tokens \<^verbatim>\<open>1\<close> and \<^verbatim>\<open>2\<close> yield, as \<^verbatim>\<open>[1,2]\<close> does; and \<^verbatim>\<open>10,20,30\<close> loses its first and last
  digit and yields what the tokens \<^verbatim>\<open>0\<close>, \<^verbatim>\<open>20\<close> and \<^verbatim>\<open>3\<close> yield.
\<close>

theorem extract_array_ignores_brackets:
  "extract_array_from_input to_int (code_points ''x'') = Some [] \<and>
   extract_array_from_input to_int (code_points ''12'') = Some [] \<and>
   extract_array_from_input to_int (code_points ''(1,2)'')
     = int_list to_int [code_points ''1'', code_points ''2''] \<and>
   extract_array_from_input to_int (code_points ''(1,2)'')
     = extract_array_from_input to_int (code_points ''[1,2]'') \<and>
   extract_array_from_input to_int (code_points ''10,20,30'')
     = int_list to_int [code_points ''0'', code_points ''20'', code_points ''3'']"
  by (simp add: extract_array_from_input_def code_points_def strip_def is_space_def)

end
